theory Spec2Isabelle
  imports Main
begin

section \<open>Vendor chunk assignment: \<open>manualChunks\<close> of vite.config.ts\<close>

text \<open>
  JavaScript's \<open>s.includes(sub)\<close> holds when \<open>sub\<close> occurs in \<open>s\<close> as a contiguous run
  of code units. A string is a list of characters; \<open>starts_with s p\<close> says that \<open>p\<close> is
  an initial segment of \<open>s\<close>, and \<open>str_includes\<close> tries every start position.
\<close>

fun starts_with :: "string \<Rightarrow> string \<Rightarrow> bool" where
  "starts_with s [] = True"
| "starts_with [] (p # ps) = False"
| "starts_with (c # cs) (p # ps) = (c = p \<and> starts_with cs ps)"

fun str_includes :: "string \<Rightarrow> string \<Rightarrow> bool" where
  "str_includes [] sub = (sub = [])"
| "str_includes (c # cs) sub = (starts_with (c # cs) sub \<or> str_includes cs sub)"

text \<open>
  \<open>manualChunks\<close> returns a chunk name, or \<open>undefined\<close> (here \<open>None\<close>) when the function
  body falls off its end. The tests are kept in the order of the source.
\<close>

definition manualChunks :: "string \<Rightarrow> string option" where
  "manualChunks id' =
     (if str_includes id' ''node_modules'' then
        if str_includes id' ''react'' \<or> str_includes id' ''react-dom''
           \<or> str_includes id' ''react-router'' then Some ''vendor-react''
        else if str_includes id' ''antd-mobile'' \<or> str_includes id' ''antd-mobile-icons''
          then Some ''vendor-ui''
        else if str_includes id' ''i18next'' \<or> str_includes id' ''react-i18next''
          then Some ''vendor-i18n''
        else if str_includes id' ''nano'' \<or> str_includes id' ''bip39''
           \<or> str_includes id' ''argon2'' \<or> str_includes id' ''crypto''
          then Some ''vendor-crypto''
        else if str_includes id' ''@capacitor'' then Some ''vendor-capacitor''
        else if str_includes id' ''firebase'' then Some ''vendor-firebase''
        else Some ''vendor-misc''
      else None)"

text \<open>The seven chunk names the specification lists.\<close>

definition vendor_chunks :: "string list" where
  "vendor_chunks = [''vendor-react'', ''vendor-ui'', ''vendor-i18n'', ''vendor-crypto'',
     ''vendor-capacitor'', ''vendor-firebase'', ''vendor-misc'']"

text \<open>A path matches a list of substrings when one of them occurs in it.\<close>

definition matches :: "string \<Rightarrow> string list \<Rightarrow> bool" where
  "matches p pats = (\<exists>pat \<in> set pats. str_includes p pat)"

section \<open>Deep equality of dependency lists: \<open>deepEqual\<close> of use-optimized-memo.ts\<close>

text \<open>
  The values \<open>deepEqual\<close> is applied to. Arrays, plain objects and functions carry the
  address of their heap cell, because \<open>===\<close> compares them by identity; an object is the list
  of its own enumerable properties. Numbers are the integers and \<open>NaN\<close>. The model leaves
  out cyclic values, array holes, getters and properties inherited from a prototype.
\<close>

datatype jsval =
    JUndefined
  | JNull
  | JBool bool
  | JNum int
  | JNaN
  | JStr string
  | JFun nat
  | JArr nat "jsval list"
  | JObj nat "(string \<times> jsval) list"

text \<open>\<open>a === b\<close>: primitives by value (\<open>NaN\<close> equals nothing), the rest by address.\<close>

fun strict_eq :: "jsval \<Rightarrow> jsval \<Rightarrow> bool" where
  "strict_eq JUndefined JUndefined = True"
| "strict_eq JNull JNull = True"
| "strict_eq (JBool x) (JBool y) = (x = y)"
| "strict_eq (JNum x) (JNum y) = (x = y)"
| "strict_eq (JStr x) (JStr y) = (x = y)"
| "strict_eq (JFun r) (JFun r') = (r = r')"
| "strict_eq (JArr r xs) (JArr r' ys) = (r = r')"
| "strict_eq (JObj r ps) (JObj r' qs) = (r = r')"
| "strict_eq a b = False"

text \<open>\<open>a == null\<close> holds for \<open>null\<close> and \<open>undefined\<close> only.\<close>

definition isNullish :: "jsval \<Rightarrow> bool" where
  "isNullish v = (v = JUndefined \<or> v = JNull)"

fun isArray :: "jsval \<Rightarrow> bool" where
  "isArray (JArr r xs) = True"
| "isArray v = False"

text \<open>\<open>typeof v === 'object'\<close>: true of \<open>null\<close>, arrays and objects, not of functions.\<close>

fun typeof_object :: "jsval \<Rightarrow> bool" where
  "typeof_object JNull = True"
| "typeof_object (JArr r xs) = True"
| "typeof_object (JObj r ps) = True"
| "typeof_object v = False"

fun elems :: "jsval \<Rightarrow> jsval list" where
  "elems (JArr r xs) = xs"
| "elems v = []"

text \<open>The decimal numeral of an array index, as \<open>Object.keys\<close> of an array lists it.\<close>

definition digit_char :: "nat \<Rightarrow> char" where
  "digit_char d = char_of (48 + d)"

function string_of_nat :: "nat \<Rightarrow> string" where
  "string_of_nat n =
     (if n < 10 then [digit_char n] else string_of_nat (n div 10) @ [digit_char (n mod 10)])"
  by pat_completeness auto
termination
  by (relation "measure id") auto

declare string_of_nat.simps [simp del]

text \<open>\<open>Object.keys(v)\<close> for an array or an object.\<close>

fun keys :: "jsval \<Rightarrow> string list" where
  "keys (JArr r xs) = map string_of_nat [0..<length xs]"
| "keys (JObj r ps) = map fst ps"
| "keys v = []"

text \<open>
  \<open>v[k]\<close> for a string key: the property when \<open>v\<close> has it, \<open>undefined\<close> otherwise. An
  array answers to its indices and to \<open>length\<close>.
\<close>

fun get_prop :: "jsval \<Rightarrow> string \<Rightarrow> jsval" where
  "get_prop (JObj r ps) k = (case map_of ps k of Some v \<Rightarrow> v | None \<Rightarrow> JUndefined)"
| "get_prop (JArr r xs) k =
     (if k = ''length'' then JNum (int (length xs))
      else case find (\<lambda>i. string_of_nat i = k) [0..<length xs] of
             Some i \<Rightarrow> xs ! i
           | None \<Rightarrow> JUndefined)"
| "get_prop v k = JUndefined"

lemma size_member: "x \<in> set xs \<Longrightarrow> size x < Suc (size_list size xs)"
  by (induction xs) auto

lemma size_value:
  "(k, v) \<in> set ps \<Longrightarrow> size v < Suc (size_list (size_prod (\<lambda>_. 0) size) ps)"
  by (induction ps) auto

lemma size_elems: "i < length (elems a) \<Longrightarrow> size (elems a ! i) < size a"
  by (cases a) (auto simp: size_member)

lemma size_get_prop: "key \<in> set (keys a) \<Longrightarrow> size (get_prop a key) < size a"
proof (cases a)
  case (JArr r xs)
  show ?thesis
  proof (cases "find (\<lambda>i. string_of_nat i = key) [0..<length xs]")
    case None
    then show ?thesis using JArr by simp
  next
    case (Some i)
    then have "i < length xs" by (auto simp: find_Some_iff)
    then show ?thesis using JArr Some by (simp add: size_member)
  qed
next
  case (JObj r ps)
  show ?thesis
  proof (cases "map_of ps key")
    case None
    then show ?thesis using JObj by simp
  next
    case (Some v)
    then have "(key, v) \<in> set ps" by (rule map_of_SomeD)
    then show ?thesis using JObj Some by (simp add: size_value)
  qed
qed simp_all

text \<open>
  \<open>deepEqual\<close>, test by test as in the source. Each \<open>for\<close> loop returns \<open>false\<close> at the first
  pair that differs and \<open>true\<close> after the last, which is \<open>list_all\<close> over the indices or
  over the keys of \<open>a\<close>. The recursion descends into \<open>a\<close>, so it ends.
\<close>

function deepEqual :: "jsval \<Rightarrow> jsval \<Rightarrow> bool" where
  "deepEqual a b =
     (if strict_eq a b then True
      else if isNullish a \<or> isNullish b then False
      else if isArray a \<and> isArray b then
        (if length (elems a) \<noteq> length (elems b) then False
         else list_all (\<lambda>i. deepEqual (elems a ! i) (elems b ! i)) [0..<length (elems a)])
      else if typeof_object a \<and> typeof_object b then
        (if length (keys a) \<noteq> length (keys b) then False
         else list_all (\<lambda>key. deepEqual (get_prop a key) (get_prop b key)) (keys a))
      else False)"
  by pat_completeness auto
termination
  by (relation "measure (\<lambda>(a, b). size a)") (auto simp: size_elems size_get_prop)

declare deepEqual.simps [simp del]

section \<open>Memoisation: \<open>memoize\<close> of performance.ts\<close>












section \<open>Lazy loading with retry: \<open>lazyWithRetry\<close> of performance.ts\<close>

text \<open>
  A promise ends fulfilled with a value, rejected with an error, or never settles.
\<close>

datatype ('e, 'm) promise = Resolved 'm | Rejected 'e | Pending

text \<open>
  A call of \<open>importFunc\<close> returns a promise, or throws before it returns one.
\<close>

datatype ('e, 'm) called = Thrown 'e | Returned "('e, 'm) promise"

text \<open>
  What the loader cannot decide is given by the surroundings: what the \<open>k\<close>-th call of
  \<open>importFunc\<close> does (calls are counted from 0), how many milliseconds its promise takes
  to settle, and how many milliseconds after its delay has elapsed the timer set after
  that attempt runs its callback. \<open>setTimeout\<close> never runs a callback early, so the
  lateness is a natural number.
\<close>

record ('e, 'm) import_env =
  importFunc :: "nat \<Rightarrow> ('e, 'm) called"
  latency :: "nat \<Rightarrow> nat"
  lateness :: "nat \<Rightarrow> nat"

text \<open>
  \<open>attemptImport\<close> is called by the executor of \<open>new Promise\<close>, for the first attempt, and
  by the timer callbacks, for the later ones. An error thrown by \<open>importFunc()\<close> leaves
  \<open>attemptImport\<close> before \<open>.catch\<close> is attached: thrown under the executor it rejects the
  promise, thrown under a timer callback it is lost and the promise never settles.
\<close>

datatype caller = Executor | Timer

text \<open>
  \<open>attemptImport\<close> at time \<open>clock\<close>, when \<open>importFunc\<close> has been called \<open>k\<close> times at the
  times \<open>attempts\<close>. The result is how the promise of the loader ends, with the times of all
  calls of \<open>importFunc\<close>. \<open>attemptsLeft\<close> is a JavaScript number holding an integer; the
  source tests \<open>attemptsLeft === 0\<close>, so a negative count retries without end, and the
  function is partial: \<open>None\<close> is a loader that calls \<open>importFunc\<close> for ever.
\<close>

partial_function (option) attemptImport ::
  "('e, 'm) import_env \<Rightarrow> nat \<Rightarrow> caller \<Rightarrow> int \<Rightarrow> nat \<Rightarrow> nat \<Rightarrow> nat list \<Rightarrow>
   (('e, 'm) promise \<times> nat list) option" where
  "attemptImport env interval who attemptsLeft k clock attempts =
     (case importFunc env k of
        Thrown error \<Rightarrow>
          Some (case who of Executor \<Rightarrow> Rejected error | Timer \<Rightarrow> Pending, attempts @ [clock])
      | Returned p \<Rightarrow>
          (case p of
             Resolved module \<Rightarrow> Some (Resolved module, attempts @ [clock])
           | Pending \<Rightarrow> Some (Pending, attempts @ [clock])
           | Rejected error \<Rightarrow>
               if attemptsLeft = 0 then Some (Rejected error, attempts @ [clock])
               else attemptImport env interval Timer (attemptsLeft - 1) (Suc k)
                      (clock + latency env k + interval + lateness env k) (attempts @ [clock])))"

text \<open>
  The promise made when the lazy component is first rendered, at time \<open>start\<close>. An absent
  argument takes its default: 3 retries, 1000 milliseconds.
\<close>

definition lazyWithRetry ::
  "('e, 'm) import_env \<Rightarrow> int option \<Rightarrow> nat option \<Rightarrow> nat \<Rightarrow>
   (('e, 'm) promise \<times> nat list) option" where
  "lazyWithRetry env retries interval start =
     attemptImport env (case interval of None \<Rightarrow> 1000 | Some i \<Rightarrow> i) Executor
       (case retries of None \<Rightarrow> 3 | Some r \<Rightarrow> r) 0 start []"

text \<open>Successive times that lie at least \<open>d\<close> apart.\<close>

fun spaced :: "nat \<Rightarrow> nat list \<Rightarrow> bool" where
  "spaced d [] = True"
| "spaced d [t] = True"
| "spaced d (t # u # ts) = (t + d \<le> u \<and> spaced d (u # ts))"

text \<open>
  Surroundings to try the loader in. In all of them an import takes 40 milliseconds and
  the timer after attempt \<open>k\<close> runs \<open>k\<close> milliseconds late, and an error is the number of
  the attempt it comes from. In \<open>failing_env\<close> every import returns a promise that is
  rejected; in \<open>flaky_env\<close> the first two do and the later ones give the module \<open>Page\<close>;
  in \<open>throwing_env\<close> every call of \<open>importFunc\<close> throws; in \<open>late_throw_env\<close> the first
  import returns a promise that is rejected and the later calls throw.
\<close>

definition failing_env :: "(nat, string) import_env" where
  "failing_env =
     \<lparr>importFunc = (\<lambda>k. Returned (Rejected k)), latency = (\<lambda>k. 40), lateness = (\<lambda>k. k)\<rparr>"

definition flaky_env :: "(nat, string) import_env" where
  "flaky_env =
     \<lparr>importFunc = (\<lambda>k. if k < 2 then Returned (Rejected k) else Returned (Resolved ''Page'')),
      latency = (\<lambda>k. 40), lateness = (\<lambda>k. k)\<rparr>"

definition throwing_env :: "(nat, string) import_env" where
  "throwing_env =
     \<lparr>importFunc = (\<lambda>k. Thrown k), latency = (\<lambda>k. 40), lateness = (\<lambda>k. k)\<rparr>"

definition late_throw_env :: "(nat, string) import_env" where
  "late_throw_env =
     \<lparr>importFunc = (\<lambda>k. if k = 0 then Returned (Rejected k) else Thrown k),
      latency = (\<lambda>k. 40), lateness = (\<lambda>k. k)\<rparr>"

section \<open>Timers: \<open>debounce\<close> and \<open>throttle\<close> of performance.ts\<close>

text \<open>
  What a wrapper sees of the runtime: the clock in milliseconds, the table of its pending
  timers (handle, earliest time of firing, callback), the next free handle, and the record
  of the calls made to the wrapped function \<open>func\<close> (time and arguments, in order). A
  callback is stored as the data its closure holds.
\<close>

record ('p, 'a) runtime =
  now :: nat
  next_id :: nat
  timers :: "(nat \<times> nat \<times> 'p) list"
  invoked :: "(nat \<times> 'a) list"

definition setTimeout ::
  "'p \<Rightarrow> nat \<Rightarrow> ('p, 'a, 'x) runtime_scheme \<Rightarrow> nat \<times> ('p, 'a, 'x) runtime_scheme" where
  "setTimeout callback delay s =
     (next_id s,
      s\<lparr>next_id := Suc (next_id s),
        timers := timers s @ [(next_id s, now s + delay, callback)]\<rparr>)"

definition clearTimeout :: "nat \<Rightarrow> ('p, 'a, 'x) runtime_scheme \<Rightarrow> ('p, 'a, 'x) runtime_scheme" where
  "clearTimeout h s = s\<lparr>timers := filter (\<lambda>(i, due, callback). i \<noteq> h) (timers s)\<rparr>"

text \<open>
  The event loop takes the pending timer \<open>h\<close> out of the table once its time has come and
  hands back its callback; it can do so at that time or later, never before.
\<close>

definition fire ::
  "nat \<Rightarrow> ('p, 'a, 'x) runtime_scheme \<Rightarrow> ('p \<times> ('p, 'a, 'x) runtime_scheme) option" where
  "fire h s =
     (case find (\<lambda>(i, due, callback). i = h) (timers s) of
        None \<Rightarrow> None
      | Some (i, due, callback) \<Rightarrow>
          if due \<le> now s then Some (callback, clearTimeout h s) else None)"

text \<open>
  What happens to a wrapper: it is called at a time with arguments, or the event loop runs
  one of its timers at a time. \<open>step\<close> is \<open>None\<close> for an event that cannot happen: the clock
  going back, a timer that is not pending, a timer running early. \<open>run\<close> takes a whole
  history; the histories with \<open>run \<dots> = Some s\<close> are those the runtime can produce.
\<close>

datatype 'a event = Call nat 'a | Fire nat nat

fun step ::
  "('a \<Rightarrow> ('p, 'a, 'x) runtime_scheme \<Rightarrow> ('p, 'a, 'x) runtime_scheme) \<Rightarrow>
   ('p \<Rightarrow> ('p, 'a, 'x) runtime_scheme \<Rightarrow> ('p, 'a, 'x) runtime_scheme) \<Rightarrow>
   'a event \<Rightarrow> ('p, 'a, 'x) runtime_scheme \<Rightarrow> ('p, 'a, 'x) runtime_scheme option" where
  "step on_call on_timer (Call t args) s =
     (if now s \<le> t then Some (on_call args (s\<lparr>now := t\<rparr>)) else None)"
| "step on_call on_timer (Fire t h) s =
     (if now s \<le> t then
        (case fire h (s\<lparr>now := t\<rparr>) of
           None \<Rightarrow> None
         | Some (callback, s') \<Rightarrow> Some (on_timer callback s'))
      else None)"

fun run ::
  "('a \<Rightarrow> ('p, 'a, 'x) runtime_scheme \<Rightarrow> ('p, 'a, 'x) runtime_scheme) \<Rightarrow>
   ('p \<Rightarrow> ('p, 'a, 'x) runtime_scheme \<Rightarrow> ('p, 'a, 'x) runtime_scheme) \<Rightarrow>
   'a event list \<Rightarrow> ('p, 'a, 'x) runtime_scheme \<Rightarrow> ('p, 'a, 'x) runtime_scheme option" where
  "run on_call on_timer [] s = Some s"
| "run on_call on_timer (e # es) s =
     (case step on_call on_timer e s of
        None \<Rightarrow> None
      | Some s' \<Rightarrow> run on_call on_timer es s')"

subsection \<open>debounce\<close>

text \<open>
  The closure variable \<open>timeout\<close> holds the handle of the pending timer or \<open>null\<close>. The
  source declares it \<open>NodeJS.Timeout | null\<close>, an object or \<open>null\<close>, so \<open>if (timeout)\<close>
  tests for \<open>null\<close>. The callback \<open>later\<close> holds the arguments of the call that made it.
\<close>

record 'a debounce_state = "('a, 'a) runtime" +
  timeout :: "nat option"

definition debounce_later :: "'a \<Rightarrow> 'a debounce_state \<Rightarrow> 'a debounce_state" where
  "debounce_later args s = s\<lparr>timeout := None, invoked := invoked s @ [(now s, args)]\<rparr>"

definition debounce :: "nat \<Rightarrow> 'a \<Rightarrow> 'a debounce_state \<Rightarrow> 'a debounce_state" where
  "debounce wait args s =
     (let s1 = (case timeout s of Some h \<Rightarrow> clearTimeout h s | None \<Rightarrow> s);
          (h', s2) = setTimeout args wait s1
      in s2\<lparr>timeout := Some h'\<rparr>)"

definition debounce_init :: "'a debounce_state" where
  "debounce_init = \<lparr>now = 0, next_id = 1, timers = [], invoked = [], timeout = None\<rparr>"

definition debounce_run :: "nat \<Rightarrow> 'a event list \<Rightarrow> 'a debounce_state option" where
  "debounce_run wait es = run (debounce wait) debounce_later es debounce_init"

text \<open>
  A history in which every call comes less than \<open>w\<close> after the call before it (\<open>prev\<close> is
  the time of the last call so far), and the last call of a history.
\<close>

fun rapid :: "nat \<Rightarrow> nat option \<Rightarrow> 'a event list \<Rightarrow> bool" where
  "rapid w prev [] = True"
| "rapid w prev (Call t args # es) =
     ((case prev of None \<Rightarrow> True | Some p \<Rightarrow> t < p + w) \<and> rapid w (Some t) es)"
| "rapid w prev (Fire t h # es) = rapid w prev es"

fun last_call :: "(nat \<times> 'a) option \<Rightarrow> 'a event list \<Rightarrow> (nat \<times> 'a) option" where
  "last_call prev [] = prev"
| "last_call prev (Call t args # es) = last_call (Some (t, args)) es"
| "last_call prev (Fire t h # es) = last_call prev es"

subsection \<open>throttle\<close>

text \<open>
  The closure variable \<open>inThrottle\<close> is declared without a value: it is \<open>undefined\<close>
  (\<open>None\<close>) until the first call, and \<open>!inThrottle\<close> holds unless it is \<open>true\<close>. The timer's
  callback holds nothing and sets \<open>inThrottle\<close> to \<open>false\<close>.
\<close>

record 'a throttle_state = "(unit, 'a) runtime" +
  inThrottle :: "bool option"

definition throttle_reset :: "unit \<Rightarrow> 'a throttle_state \<Rightarrow> 'a throttle_state" where
  "throttle_reset u s = s\<lparr>inThrottle := Some False\<rparr>"

text \<open>
  The wrapped function \<open>func\<close> runs inside the wrapper, before \<open>inThrottle = true\<close>. It may
  finish, it may throw, and it may call the wrapper while it runs and go on from whether
  that call threw. What \<open>func\<close> does can differ from one invocation to the next: it is
  given the number of invocations made before.
\<close>

datatype 'a func_run = Finishes | Raises | Reenters 'a "bool \<Rightarrow> 'a func_run"

text \<open>
  One call of the throttled function, and the run of \<open>func\<close> inside it; the result says
  whether the call threw. When \<open>func\<close> throws, the error leaves the wrapper before
  \<open>inThrottle = true\<close> and \<open>setTimeout\<close> are reached. Since \<open>func\<close> can call the wrapper
  without end, the first argument bounds the depth of the run: \<open>None\<close> is a call that has not
  returned within the bound.
\<close>

fun throttle ::
  "nat \<Rightarrow> (nat \<Rightarrow> 'a \<Rightarrow> 'a func_run) \<Rightarrow> nat \<Rightarrow> 'a \<Rightarrow> 'a throttle_state \<Rightarrow>
   (bool \<times> 'a throttle_state) option"
and run_func ::
  "nat \<Rightarrow> (nat \<Rightarrow> 'a \<Rightarrow> 'a func_run) \<Rightarrow> nat \<Rightarrow> 'a func_run \<Rightarrow> 'a throttle_state \<Rightarrow>
   (bool \<times> 'a throttle_state) option" where
  "throttle 0 func limit args s = None"
| "throttle (Suc depth) func limit args s =
     (if inThrottle s \<noteq> Some True then
        (case run_func depth func limit (func (length (invoked s)) args)
                (s\<lparr>invoked := invoked s @ [(now s, args)]\<rparr>) of
           None \<Rightarrow> None
         | Some (threw, s1) \<Rightarrow>
             if threw then Some (True, s1)
             else Some (False, snd (setTimeout () limit (s1\<lparr>inThrottle := Some True\<rparr>))))
      else Some (False, s))"
| "run_func depth func limit Finishes s = Some (False, s)"
| "run_func depth func limit Raises s = Some (True, s)"
| "run_func 0 func limit (Reenters args continue) s = None"
| "run_func (Suc depth) func limit (Reenters args continue) s =
     (case throttle depth func limit args s of
        None \<Rightarrow> None
      | Some (threw, s1) \<Rightarrow> run_func depth func limit (continue threw) s1)"

definition throttle_init :: "'a throttle_state" where
  "throttle_init = \<lparr>now = 0, next_id = 1, timers = [], invoked = [], inThrottle = None\<rparr>"

text \<open>
  The histories of a throttled function. An error thrown by a call goes to the caller; the
  wrapper stays as the call left it.
\<close>

fun throttle_step ::
  "nat \<Rightarrow> (nat \<Rightarrow> 'a \<Rightarrow> 'a func_run) \<Rightarrow> nat \<Rightarrow> 'a event \<Rightarrow> 'a throttle_state \<Rightarrow>
   'a throttle_state option" where
  "throttle_step depth func limit (Call t args) s =
     (if now s \<le> t then map_option snd (throttle depth func limit args (s\<lparr>now := t\<rparr>)) else None)"
| "throttle_step depth func limit (Fire t h) s =
     (if now s \<le> t then
        (case fire h (s\<lparr>now := t\<rparr>) of
           None \<Rightarrow> None
         | Some (callback, s') \<Rightarrow> Some (throttle_reset callback s'))
      else None)"

fun throttle_steps ::
  "nat \<Rightarrow> (nat \<Rightarrow> 'a \<Rightarrow> 'a func_run) \<Rightarrow> nat \<Rightarrow> 'a event list \<Rightarrow> 'a throttle_state \<Rightarrow>
   'a throttle_state option" where
  "throttle_steps depth func limit [] s = Some s"
| "throttle_steps depth func limit (e # es) s =
     (case throttle_step depth func limit e s of
        None \<Rightarrow> None
      | Some s' \<Rightarrow> throttle_steps depth func limit es s')"

definition throttle_run ::
  "nat \<Rightarrow> (nat \<Rightarrow> 'a \<Rightarrow> 'a func_run) \<Rightarrow> nat \<Rightarrow> 'a event list \<Rightarrow> 'a throttle_state option" where
  "throttle_run depth func limit es = throttle_steps depth func limit es throttle_init"

text \<open>
  Wrapped functions to try the throttle on: one that always finishes, one that always
  throws, and one that, called on \<open>outer\<close>, calls the wrapper on \<open>inner\<close> and then
  finishes.
\<close>

definition plain_func :: "nat \<Rightarrow> string \<Rightarrow> string func_run" where
  "plain_func i x = Finishes"

definition raising_func :: "nat \<Rightarrow> string \<Rightarrow> string func_run" where
  "raising_func i x = Raises"

definition reentrant_func :: "nat \<Rightarrow> string \<Rightarrow> string func_run" where
  "reentrant_func i x = (if x = ''outer'' then Reenters ''inner'' (\<lambda>threw. Finishes) else Finishes)"

subsection \<open>Invariants\<close>

text \<open>
  The timer slot of a debounced function: nothing pending and \<open>timeout\<close> null, or one
  pending timer, whose handle \<open>timeout\<close> holds; handles yet to be given out are not in
  use.
\<close>

definition debounce_slot :: "'a debounce_state \<Rightarrow> bool" where
  "debounce_slot s \<longleftrightarrow>
     (timeout s = None \<and> timers s = []) \<or>
     (\<exists>h due args. timeout s = Some h \<and> timers s = [(h, due, args)] \<and> h < next_id s)"

text \<open>
  A debounced function whose calls so far came in rapid succession, \<open>prev\<close> being the last
  of them: before any call nothing is pending and \<open>func\<close> has not run; after a call at
  \<open>t\<close> with \<open>args\<close> either the timer for \<open>t + w\<close> holding \<open>args\<close> is pending and \<open>func\<close>
  has not run, or that timer has run \<open>func\<close> once, on \<open>args\<close>, no earlier than \<open>t + w\<close>.
\<close>

definition debounce_quiet :: "nat \<Rightarrow> (nat \<times> 'a) option \<Rightarrow> 'a debounce_state \<Rightarrow> bool" where
  "debounce_quiet w prev s \<longleftrightarrow>
     (case prev of
        None \<Rightarrow> timers s = [] \<and> timeout s = None \<and> invoked s = []
      | Some (t, args) \<Rightarrow>
          t \<le> now s \<and>
          ((\<exists>h. timers s = [(h, t + w, args)] \<and> timeout s = Some h \<and> h < next_id s \<and>
                invoked s = []) \<or>
           (\<exists>u. timers s = [] \<and> timeout s = None \<and> invoked s = [(u, args)] \<and>
                t + w \<le> u \<and> u \<le> now s)))"

text \<open>
  The timer slot of a throttled function: one pending timer while \<open>inThrottle\<close> is \<open>true\<close>,
  none otherwise.
\<close>

definition throttle_slot :: "'a throttle_state \<Rightarrow> bool" where
  "throttle_slot s \<longleftrightarrow>
     (inThrottle s = Some True \<and> (\<exists>h due. timers s = [(h, due, ())])) \<or>
     (inThrottle s \<noteq> Some True \<and> timers s = [])"

text \<open>
  A throttled function whose \<open>func\<close> finishes and does not call the wrapper: the calls of
  \<open>func\<close> lie at least \<open>limit\<close> apart; while
  \<open>inThrottle\<close> is \<open>true\<close> the one pending timer is the one set at the last call of \<open>func\<close>;
  otherwise no timer is pending and the last call of \<open>func\<close> is at least \<open>limit\<close> ago.
\<close>

definition throttle_window :: "nat \<Rightarrow> 'a throttle_state \<Rightarrow> bool" where
  "throttle_window limit s \<longleftrightarrow>
     spaced limit (map fst (invoked s)) \<and>
     (if inThrottle s = Some True then
        invoked s \<noteq> [] \<and> fst (last (invoked s)) \<le> now s \<and>
        (\<exists>h. timers s = [(h, fst (last (invoked s)) + limit, ())])
      else
        timers s = [] \<and> (invoked s \<noteq> [] \<longrightarrow> fst (last (invoked s)) + limit \<le> now s))"

section \<open>Properties of \<open>manualChunks\<close>\<close>

text \<open>\<open>str_includes\<close> is the occurrence of a contiguous run.\<close>

lemma starts_with_append: "starts_with s p \<longleftrightarrow> (\<exists>q. s = p @ q)"
  by (induction s p rule: starts_with.induct) auto

lemma str_includes_iff: "str_includes s sub \<longleftrightarrow> (\<exists>p q. s = p @ sub @ q)"
proof (induction s)
  case Nil
  then show ?case by auto
next
  case (Cons c cs)
  show ?case
  proof
    assume "str_includes (c # cs) sub"
    then consider "starts_with (c # cs) sub" | "str_includes cs sub" by auto
    then show "\<exists>p q. c # cs = p @ sub @ q"
    proof cases
      case 1
      then obtain q where "c # cs = sub @ q" by (auto simp: starts_with_append)
      then have "c # cs = [] @ sub @ q" by simp
      then show ?thesis by blast
    next
      case 2
      then obtain p q where "cs = p @ sub @ q" using Cons.IH by blast
      then have "c # cs = (c # p) @ sub @ q" by simp
      then show ?thesis by blast
    qed
  next
    assume "\<exists>p q. c # cs = p @ sub @ q"
    then obtain p q where pq: "c # cs = p @ sub @ q" by blast
    show "str_includes (c # cs) sub"
    proof (cases p)
      case Nil
      with pq have "starts_with (c # cs) sub" by (auto simp: starts_with_append)
      then show ?thesis by simp
    next
      case (Cons a p')
      with pq have "cs = p' @ sub @ q" by simp
      then have "str_includes cs sub" using Cons.IH by blast
      then show ?thesis by simp
    qed
  qed
qed

text \<open>
  C8. A module path that contains \<open>node_modules\<close> gets exactly one chunk, one of the seven
  vendor chunk names (which are pairwise different), and which one is decided by the
  substrings that occur in the path, tried in this order: the React substrings give
  \<open>vendor-react\<close>; otherwise the Antd Mobile ones give \<open>vendor-ui\<close>; otherwise the i18n
  ones give \<open>vendor-i18n\<close>; otherwise the crypto ones give \<open>vendor-crypto\<close>; otherwise
  \<open>@capacitor\<close> gives \<open>vendor-capacitor\<close>; otherwise \<open>firebase\<close> gives
  \<open>vendor-firebase\<close>; and \<open>vendor-misc\<close> is given exactly when none of these substrings
  occurs. A path that does not contain \<open>node_modules\<close> gets no chunk.
\<close>

theorem manualChunks_vendor:
  "(str_includes p ''node_modules'' \<longrightarrow>
      (\<exists>c \<in> set vendor_chunks. manualChunks p = Some c) \<and>
      (manualChunks p = Some ''vendor-react'' \<longleftrightarrow>
         matches p [''react'', ''react-dom'', ''react-router'']) \<and>
      (manualChunks p = Some ''vendor-ui'' \<longleftrightarrow>
         \<not> matches p [''react'', ''react-dom'', ''react-router''] \<and>
         matches p [''antd-mobile'', ''antd-mobile-icons'']) \<and>
      (manualChunks p = Some ''vendor-i18n'' \<longleftrightarrow>
         \<not> matches p [''react'', ''react-dom'', ''react-router'', ''antd-mobile'',
           ''antd-mobile-icons''] \<and>
         matches p [''i18next'', ''react-i18next'']) \<and>
      (manualChunks p = Some ''vendor-crypto'' \<longleftrightarrow>
         \<not> matches p [''react'', ''react-dom'', ''react-router'', ''antd-mobile'',
           ''antd-mobile-icons'', ''i18next'', ''react-i18next''] \<and>
         matches p [''nano'', ''bip39'', ''argon2'', ''crypto'']) \<and>
      (manualChunks p = Some ''vendor-capacitor'' \<longleftrightarrow>
         \<not> matches p [''react'', ''react-dom'', ''react-router'', ''antd-mobile'',
           ''antd-mobile-icons'', ''i18next'', ''react-i18next'', ''nano'', ''bip39'',
           ''argon2'', ''crypto''] \<and>
         matches p [''@capacitor'']) \<and>
      (manualChunks p = Some ''vendor-firebase'' \<longleftrightarrow>
         \<not> matches p [''react'', ''react-dom'', ''react-router'', ''antd-mobile'',
           ''antd-mobile-icons'', ''i18next'', ''react-i18next'', ''nano'', ''bip39'',
           ''argon2'', ''crypto'', ''@capacitor''] \<and>
         matches p [''firebase'']) \<and>
      (manualChunks p = Some ''vendor-misc'' \<longleftrightarrow>
         \<not> matches p [''react'', ''react-dom'', ''react-router'', ''antd-mobile'',
           ''antd-mobile-icons'', ''i18next'', ''react-i18next'', ''nano'', ''bip39'',
           ''argon2'', ''crypto'', ''@capacitor'', ''firebase''])) \<and>
   (\<not> str_includes p ''node_modules'' \<longrightarrow> manualChunks p = None) \<and>
   distinct vendor_chunks"
  by (simp add: manualChunks_def vendor_chunks_def matches_def)

theorem manualChunks_vendor_witness:
  "manualChunks ''/app/node_modules/react-dom/index.js'' = Some ''vendor-react'' \<and>
   manualChunks ''/app/node_modules/antd-mobile/es/index.js'' = Some ''vendor-ui'' \<and>
   manualChunks ''/app/node_modules/i18next/dist/esm/i18next.js'' = Some ''vendor-i18n'' \<and>
   manualChunks ''/app/node_modules/bip39/src/index.js'' = Some ''vendor-crypto'' \<and>
   manualChunks ''/app/node_modules/@capacitor/core/dist/index.js'' = Some ''vendor-capacitor'' \<and>
   manualChunks ''/app/node_modules/firebase/app/dist/index.mjs'' = Some ''vendor-firebase'' \<and>
   manualChunks ''/app/node_modules/lodash/index.js'' = Some ''vendor-misc'' \<and>
   manualChunks ''/app/node_modules/react-i18next/dist/es/index.js'' = Some ''vendor-react'' \<and>
   \<not> str_includes ''/app/src/main.tsx'' ''node_modules'' \<and>
   manualChunks ''/app/src/main.tsx'' = None"
proof -
  have react: "str_includes ''/app/node_modules/react-dom/index.js'' ''node_modules''"
    "matches ''/app/node_modules/react-dom/index.js'' [''react'', ''react-dom'', ''react-router'']"
    by (simp_all add: matches_def)
  have ui: "str_includes ''/app/node_modules/antd-mobile/es/index.js'' ''node_modules''"
    "\<not> matches ''/app/node_modules/antd-mobile/es/index.js''
       [''react'', ''react-dom'', ''react-router'']"
    "matches ''/app/node_modules/antd-mobile/es/index.js''
       [''antd-mobile'', ''antd-mobile-icons'']"
    by (simp_all add: matches_def)
  have i18n: "str_includes ''/app/node_modules/i18next/dist/esm/i18next.js'' ''node_modules''"
    "\<not> matches ''/app/node_modules/i18next/dist/esm/i18next.js''
       [''react'', ''react-dom'', ''react-router'', ''antd-mobile'', ''antd-mobile-icons'']"
    "matches ''/app/node_modules/i18next/dist/esm/i18next.js'' [''i18next'', ''react-i18next'']"
    by (simp_all add: matches_def)
  have crypto: "str_includes ''/app/node_modules/bip39/src/index.js'' ''node_modules''"
    "\<not> matches ''/app/node_modules/bip39/src/index.js''
       [''react'', ''react-dom'', ''react-router'', ''antd-mobile'', ''antd-mobile-icons'',
        ''i18next'', ''react-i18next'']"
    "matches ''/app/node_modules/bip39/src/index.js'' [''nano'', ''bip39'', ''argon2'', ''crypto'']"
    by (simp_all add: matches_def)
  have capacitor:
    "str_includes ''/app/node_modules/@capacitor/core/dist/index.js'' ''node_modules''"
    "\<not> matches ''/app/node_modules/@capacitor/core/dist/index.js''
       [''react'', ''react-dom'', ''react-router'', ''antd-mobile'', ''antd-mobile-icons'',
        ''i18next'', ''react-i18next'', ''nano'', ''bip39'', ''argon2'', ''crypto'']"
    "matches ''/app/node_modules/@capacitor/core/dist/index.js'' [''@capacitor'']"
    by (simp_all add: matches_def)
  have firebase:
    "str_includes ''/app/node_modules/firebase/app/dist/index.mjs'' ''node_modules''"
    "\<not> matches ''/app/node_modules/firebase/app/dist/index.mjs''
       [''react'', ''react-dom'', ''react-router'', ''antd-mobile'', ''antd-mobile-icons'',
        ''i18next'', ''react-i18next'', ''nano'', ''bip39'', ''argon2'', ''crypto'',
        ''@capacitor'']"
    "matches ''/app/node_modules/firebase/app/dist/index.mjs'' [''firebase'']"
    by (simp_all add: matches_def)
  have misc: "str_includes ''/app/node_modules/lodash/index.js'' ''node_modules''"
    "\<not> matches ''/app/node_modules/lodash/index.js''
       [''react'', ''react-dom'', ''react-router'', ''antd-mobile'', ''antd-mobile-icons'',
        ''i18next'', ''react-i18next'', ''nano'', ''bip39'', ''argon2'', ''crypto'',
        ''@capacitor'', ''firebase'']"
    by (simp_all add: matches_def)
  have shadowed:
    "str_includes ''/app/node_modules/react-i18next/dist/es/index.js'' ''node_modules''"
    "matches ''/app/node_modules/react-i18next/dist/es/index.js''
       [''react'', ''react-dom'', ''react-router'']"
    by (simp_all add: matches_def)
  have outside: "\<not> str_includes ''/app/src/main.tsx'' ''node_modules''"
    by simp
  from manualChunks_vendor [of "''/app/node_modules/react-dom/index.js''"] react
  have 1: "manualChunks ''/app/node_modules/react-dom/index.js'' = Some ''vendor-react''"
    by blast
  from manualChunks_vendor [of "''/app/node_modules/antd-mobile/es/index.js''"] ui
  have 2: "manualChunks ''/app/node_modules/antd-mobile/es/index.js'' = Some ''vendor-ui''"
    by blast
  from manualChunks_vendor [of "''/app/node_modules/i18next/dist/esm/i18next.js''"] i18n
  have 3: "manualChunks ''/app/node_modules/i18next/dist/esm/i18next.js'' = Some ''vendor-i18n''"
    by blast
  from manualChunks_vendor [of "''/app/node_modules/bip39/src/index.js''"] crypto
  have 4: "manualChunks ''/app/node_modules/bip39/src/index.js'' = Some ''vendor-crypto''"
    by blast
  from manualChunks_vendor [of "''/app/node_modules/@capacitor/core/dist/index.js''"] capacitor
  have 5: "manualChunks ''/app/node_modules/@capacitor/core/dist/index.js'' =
      Some ''vendor-capacitor''"
    by blast
  from manualChunks_vendor [of "''/app/node_modules/firebase/app/dist/index.mjs''"] firebase
  have 6: "manualChunks ''/app/node_modules/firebase/app/dist/index.mjs'' =
      Some ''vendor-firebase''"
    by blast
  from manualChunks_vendor [of "''/app/node_modules/lodash/index.js''"] misc
  have 7: "manualChunks ''/app/node_modules/lodash/index.js'' = Some ''vendor-misc''"
    by blast
  from manualChunks_vendor [of "''/app/node_modules/react-i18next/dist/es/index.js''"] shadowed
  have 8: "manualChunks ''/app/node_modules/react-i18next/dist/es/index.js'' =
      Some ''vendor-react''"
    by blast
  from manualChunks_vendor [of "''/app/src/main.tsx''"] outside
  have 9: "manualChunks ''/app/src/main.tsx'' = None"
    by blast
  from 1 2 3 4 5 6 7 8 9 outside show ?thesis by blast
qed

section \<open>Properties of \<open>deepEqual\<close>\<close>

text \<open>
  C9. \<open>deepEqual\<close> is not symmetric. The object branch walks the keys of its first argument
  only and reads a key its second argument lacks as \<open>undefined\<close>: for the dependency lists
  \<open>[{x: undefined}]\<close> and \<open>[{y: 1}]\<close> the comparison is \<open>true\<close> in one order and \<open>false\<close>
  in the other.
\<close>

theorem deepEqual_asymmetric:
  "deepEqual (JArr 3 [JObj 1 [(''x'', JUndefined)]]) (JArr 4 [JObj 2 [(''y'', JNum 1)]]) = True \<and>
   deepEqual (JArr 4 [JObj 2 [(''y'', JNum 1)]]) (JArr 3 [JObj 1 [(''x'', JUndefined)]]) = False"
  by (simp add: deepEqual.simps isNullish_def)

section \<open>Properties of \<open>memoize\<close>\<close>



















section \<open>Properties of \<open>lazyWithRetry\<close>\<close>

lemma spaced_snoc:
  "spaced d (ts @ [u]) \<longleftrightarrow> spaced d ts \<and> (ts \<noteq> [] \<longrightarrow> last ts + d \<le> u)"
  by (induction d ts rule: spaced.induct) auto

text \<open>
  While the promises of the imports are rejected and the retry count has not come to 0,
  the loader goes on: after \<open>j\<close> such attempts it stands before attempt \<open>k + j\<close> with the
  count \<open>j\<close> lower, and the \<open>j\<close> attempts made and the one to come lie at least \<open>interval\<close>
  apart.
\<close>

lemma attemptImport_failures:
  assumes "\<forall>i<j. importFunc env (k + i) = Returned (Rejected (err (k + i)))"
    and "\<forall>i<j. attemptsLeft \<noteq> int i"
  shows "\<exists>clock' ts.
    attemptImport env interval who attemptsLeft k clock attempts =
      attemptImport env interval (if j = 0 then who else Timer) (attemptsLeft - int j) (k + j)
        clock' (attempts @ ts) \<and>
    length ts = j \<and> spaced interval (ts @ [clock'])"
  using assms
proof (induction j)
  case 0
  have "attemptImport env interval who attemptsLeft k clock attempts =
      attemptImport env interval (if (0::nat) = 0 then who else Timer) (attemptsLeft - int 0)
        (k + 0) clock (attempts @ []) \<and>
    length ([]::nat list) = 0 \<and> spaced interval ([] @ [clock])"
    by simp
  then show ?case by blast
next
  case (Suc j)
  from Suc.prems have fails: "\<forall>i<j. importFunc env (k + i) = Returned (Rejected (err (k + i)))"
    and left: "\<forall>i<j. attemptsLeft \<noteq> int i"
    by auto
  from Suc.IH [OF fails left] obtain clock' ts where
    eq: "attemptImport env interval who attemptsLeft k clock attempts =
      attemptImport env interval (if j = 0 then who else Timer) (attemptsLeft - int j) (k + j)
        clock' (attempts @ ts)"
    and len: "length ts = j" and sp: "spaced interval (ts @ [clock'])"
    by blast
  from Suc.prems have rej: "importFunc env (k + j) = Returned (Rejected (err (k + j)))"
    and more: "attemptsLeft - int j \<noteq> 0"
    by auto
  let ?clock = "clock' + latency env (k + j) + interval + lateness env (k + j)"
  have "attemptImport env interval (if j = 0 then who else Timer) (attemptsLeft - int j) (k + j)
        clock' (attempts @ ts) =
      attemptImport env interval Timer (attemptsLeft - int j - 1) (Suc (k + j)) ?clock
        ((attempts @ ts) @ [clock'])"
    using rej more by (subst attemptImport.simps) simp
  with eq have "attemptImport env interval who attemptsLeft k clock attempts =
      attemptImport env interval (if Suc j = 0 then who else Timer) (attemptsLeft - int (Suc j))
        (k + Suc j) ?clock (attempts @ (ts @ [clock']))"
    by (simp add: algebra_simps)
  moreover have "length (ts @ [clock']) = Suc j"
    using len by simp
  moreover have "spaced interval ((ts @ [clock']) @ [?clock])"
    using sp by (subst spaced_snoc) simp
  ultimately show ?case by blast
qed

text \<open>
  C1, as amended. When every call of \<open>importFunc\<close> returns a promise that is rejected and
  the retry count is \<open>N \<ge> 0\<close>, the loader calls \<open>importFunc\<close> exactly \<open>N + 1\<close> times, at
  times that lie at least \<open>interval\<close> apart, and then rejects its promise, with the error of
  the last attempt.
\<close>

theorem lazyWithRetry_attempts:
  assumes "0 \<le> N"
    and "\<forall>k. importFunc env k = Returned (Rejected (err k))"
  shows "\<exists>attempts.
    lazyWithRetry env (Some N) (Some interval) start = Some (Rejected (err (nat N)), attempts) \<and>
    length attempts = nat N + 1 \<and> spaced interval attempts"
proof -
  have "\<forall>i<nat N. importFunc env (0 + i) = Returned (Rejected (err (0 + i)))"
    using assms(2) by simp
  moreover have "\<forall>i<nat N. N \<noteq> int i"
    using assms(1) by auto
  ultimately obtain clock' ts where
    eq: "attemptImport env interval Executor N 0 start [] =
      attemptImport env interval (if nat N = 0 then Executor else Timer) (N - int (nat N))
        (0 + nat N) clock' ([] @ ts)"
    and len: "length ts = nat N" and sp: "spaced interval (ts @ [clock'])"
    using attemptImport_failures [of "nat N" env 0 err N interval Executor start "[]"] by blast
  have "attemptImport env interval (if nat N = 0 then Executor else Timer) (N - int (nat N))
        (0 + nat N) clock' ([] @ ts) =
      Some (Rejected (err (nat N)), ts @ [clock'])"
    using assms by (subst attemptImport.simps) simp
  with eq have "lazyWithRetry env (Some N) (Some interval) start =
      Some (Rejected (err (nat N)), ts @ [clock'])"
    by (simp add: lazyWithRetry_def)
  moreover have "length (ts @ [clock']) = nat N + 1"
    using len by simp
  ultimately show ?thesis using sp by blast
qed

theorem lazyWithRetry_attempts_witness:
  "(0::int) \<le> 2 \<and> (\<forall>k. importFunc failing_env k = Returned (Rejected k)) \<and>
   lazyWithRetry failing_env (Some 2) (Some 1000) 5 = Some (Rejected 2, [5, 1045, 2086]) \<and>
   length [5, 1045, 2086 :: nat] = nat 2 + 1 \<and> spaced 1000 [5, 1045, 2086]"
proof -
  have fails: "\<forall>k. importFunc failing_env k = Returned (Rejected k)"
    by (simp add: failing_env_def)
  have run: "lazyWithRetry failing_env (Some 2) (Some 1000) 5 =
      Some (Rejected 2, [5, 1045, 2086])"
    by (simp add: lazyWithRetry_def attemptImport.simps failing_env_def)
  from lazyWithRetry_attempts [of 2 failing_env "\<lambda>k. k" 1000 5] fails
  obtain attempts where
    "lazyWithRetry failing_env (Some 2) (Some 1000) 5 = Some (Rejected (nat 2), attempts)"
    and "length attempts = nat 2 + 1" and "spaced 1000 attempts"
    by auto
  with run fails show ?thesis by simp
qed

text \<open>
  The claim as first stated fails for an import operation that fails by throwing: with 2
  retries the loader calls it once, not three times, and rejects at once.
\<close>

theorem lazyWithRetry_attempts_counterexample:
  "lazyWithRetry throwing_env (Some 2) (Some 1000) 5 = Some (Rejected 0, [5]) \<and>
   length [5::nat] \<noteq> nat 2 + 1"
  by (simp add: lazyWithRetry_def attemptImport.simps throwing_env_def)

text \<open>
  C2, as amended. Let the promises of the first \<open>j\<close> attempts be rejected, with the retry
  count \<open>N\<close> not used up before attempt \<open>j\<close>. If the promise of attempt \<open>j\<close> is fulfilled,
  the promise of the loader resolves with the module it imported. If it is rejected and
  \<open>j = N\<close>, no retry is left and the promise of the loader is rejected with the error of
  that last attempt. If it is rejected and the remaining count \<open>N - j\<close> is not 0, the
  promise of the loader is not rejected there: attempt \<open>j + 1\<close> is made from a timer, with
  the count one lower, at least \<open>interval\<close> after attempt \<open>j\<close>. A call of \<open>importFunc\<close> that
  throws is not retried: in the first attempt it rejects the promise of the loader with the
  error thrown, in a later attempt the promise never settles.
\<close>

theorem lazyWithRetry_outcomes:
  assumes "\<forall>i<j. importFunc env i = Returned (Rejected (err i))"
    and "\<forall>i<j. N \<noteq> int i"
  shows "(importFunc env j = Returned (Resolved m) \<longrightarrow>
      (\<exists>attempts. lazyWithRetry env (Some N) (Some interval) start =
         Some (Resolved m, attempts) \<and> length attempts = j + 1)) \<and>
    (importFunc env j = Returned (Rejected e) \<and> N = int j \<longrightarrow>
      (\<exists>attempts. lazyWithRetry env (Some N) (Some interval) start =
         Some (Rejected e, attempts) \<and> length attempts = j + 1)) \<and>
    (importFunc env j = Returned (Rejected e) \<and> N \<noteq> int j \<longrightarrow>
      (\<exists>attempts clock. lazyWithRetry env (Some N) (Some interval) start =
         attemptImport env interval Timer (N - int j - 1) (j + 1) clock attempts \<and>
         length attempts = j + 1 \<and> last attempts + interval \<le> clock)) \<and>
    (importFunc env j = Thrown e \<and> j = 0 \<longrightarrow>
      lazyWithRetry env (Some N) (Some interval) start = Some (Rejected e, [start])) \<and>
    (importFunc env j = Thrown e \<and> 0 < j \<longrightarrow>
      (\<exists>attempts. lazyWithRetry env (Some N) (Some interval) start =
         Some (Pending, attempts) \<and> length attempts = j + 1))"
proof -
  have "\<forall>i<j. importFunc env (0 + i) = Returned (Rejected (err (0 + i)))"
    using assms(1) by simp
  then obtain clock' ts where
    eq: "attemptImport env interval Executor N 0 start [] =
      attemptImport env interval (if j = 0 then Executor else Timer) (N - int j) (0 + j)
        clock' ([] @ ts)"
    and len: "length ts = j"
    using attemptImport_failures [of j env 0 err N interval Executor start "[]"] assms(2)
    by blast
  let ?who = "if j = 0 then Executor else Timer"
  have start: "lazyWithRetry env (Some N) (Some interval) start =
      attemptImport env interval ?who (N - int j) j clock' ts"
    using eq by (simp add: lazyWithRetry_def)
  have resolved: "\<exists>attempts. lazyWithRetry env (Some N) (Some interval) start =
      Some (Resolved m, attempts) \<and> length attempts = j + 1"
    if "importFunc env j = Returned (Resolved m)"
  proof -
    have "attemptImport env interval ?who (N - int j) j clock' ts =
        Some (Resolved m, ts @ [clock'])"
      using that by (subst attemptImport.simps) simp
    with start len show ?thesis by simp
  qed
  have rejected: "\<exists>attempts. lazyWithRetry env (Some N) (Some interval) start =
      Some (Rejected e, attempts) \<and> length attempts = j + 1"
    if "importFunc env j = Returned (Rejected e)" and "N = int j"
  proof -
    have "attemptImport env interval ?who (N - int j) j clock' ts =
        Some (Rejected e, ts @ [clock'])"
      using that by (subst attemptImport.simps) simp
    with start len show ?thesis by simp
  qed
  have retried: "\<exists>attempts clock. lazyWithRetry env (Some N) (Some interval) start =
      attemptImport env interval Timer (N - int j - 1) (j + 1) clock attempts \<and>
      length attempts = j + 1 \<and> last attempts + interval \<le> clock"
    if "importFunc env j = Returned (Rejected e)" and "N \<noteq> int j"
  proof -
    let ?clock = "clock' + latency env j + interval + lateness env j"
    have "attemptImport env interval ?who (N - int j) j clock' ts =
        attemptImport env interval Timer (N - int j - 1) (j + 1) ?clock (ts @ [clock'])"
      using that by (subst attemptImport.simps) auto
    with start have "lazyWithRetry env (Some N) (Some interval) start =
        attemptImport env interval Timer (N - int j - 1) (j + 1) ?clock (ts @ [clock'])"
      by simp
    moreover have "length (ts @ [clock']) = j + 1"
      using len by simp
    moreover have "last (ts @ [clock']) + interval \<le> ?clock"
      by simp
    ultimately show ?thesis by blast
  qed
  have thrown_first: "lazyWithRetry env (Some N) (Some interval) start = Some (Rejected e, [start])"
    if "importFunc env j = Thrown e" and "j = 0"
    using that unfolding lazyWithRetry_def by (subst attemptImport.simps) simp
  have thrown_later: "\<exists>attempts. lazyWithRetry env (Some N) (Some interval) start =
      Some (Pending, attempts) \<and> length attempts = j + 1"
    if "importFunc env j = Thrown e" and "0 < j"
  proof -
    have "attemptImport env interval ?who (N - int j) j clock' ts =
        Some (Pending, ts @ [clock'])"
      using that by (subst attemptImport.simps) simp
    with start len show ?thesis by simp
  qed
  from resolved rejected retried thrown_first thrown_later show ?thesis by blast
qed

theorem lazyWithRetry_outcomes_witness:
  "importFunc flaky_env 2 = Returned (Resolved ''Page'') \<and>
   lazyWithRetry flaky_env (Some 3) (Some 1000) 0 = Some (Resolved ''Page'', [0, 1040, 2081]) \<and>
   importFunc failing_env 2 = Returned (Rejected 2) \<and>
   lazyWithRetry failing_env (Some 2) (Some 1000) 5 = Some (Rejected 2, [5, 1045, 2086]) \<and>
   importFunc failing_env 1 = Returned (Rejected 1) \<and>
   (\<exists>attempts clock. lazyWithRetry failing_env (Some 2) (Some 1000) 5 =
      attemptImport failing_env 1000 Timer (2 - int 1 - 1) (1 + 1) clock attempts \<and>
      length attempts = 1 + 1 \<and> last attempts + 1000 \<le> clock) \<and>
   importFunc throwing_env 0 = Thrown 0 \<and>
   lazyWithRetry throwing_env (Some 3) (Some 1000) 7 = Some (Rejected 0, [7]) \<and>
   importFunc late_throw_env 1 = Thrown 1 \<and>
   lazyWithRetry late_throw_env (Some 3) (Some 1000) 7 = Some (Pending, [7, 1047])"
proof -
  have flaky: "\<forall>i<2. importFunc flaky_env i = Returned (Rejected i)"
    and page: "importFunc flaky_env 2 = Returned (Resolved ''Page'')"
    by (simp_all add: flaky_env_def)
  have fails: "\<forall>i<n. importFunc failing_env i = Returned (Rejected i)" for n
    by (simp add: failing_env_def)
  have two: "importFunc failing_env 2 = Returned (Rejected 2)"
    and one: "importFunc failing_env 1 = Returned (Rejected 1)"
    by (simp_all add: failing_env_def)
  have throws: "importFunc throwing_env 0 = Thrown 0"
    by (simp add: throwing_env_def)
  have late: "\<forall>i<1. importFunc late_throw_env i = Returned (Rejected i)"
    and late_throws: "importFunc late_throw_env 1 = Thrown 1"
    by (simp_all add: late_throw_env_def)
  have run_flaky: "lazyWithRetry flaky_env (Some 3) (Some 1000) 0 =
      Some (Resolved ''Page'', [0, 1040, 2081])"
    by (simp add: lazyWithRetry_def attemptImport.simps flaky_env_def)
  have run_failing: "lazyWithRetry failing_env (Some 2) (Some 1000) 5 =
      Some (Rejected 2, [5, 1045, 2086])"
    by (simp add: lazyWithRetry_def attemptImport.simps failing_env_def)
  have run_late: "lazyWithRetry late_throw_env (Some 3) (Some 1000) 7 = Some (Pending, [7, 1047])"
    by (simp add: lazyWithRetry_def attemptImport.simps late_throw_env_def)
  from lazyWithRetry_outcomes [of 2 flaky_env "\<lambda>k. k" 3 "''Page''" 1000 0] flaky page
  have "\<exists>attempts. lazyWithRetry flaky_env (Some 3) (Some 1000) 0 =
      Some (Resolved ''Page'', attempts) \<and> length attempts = 2 + 1"
    by simp
  moreover
  from lazyWithRetry_outcomes [of 2 failing_env "\<lambda>k. k" 2 _ 1000 5 2] fails [of 2] two
  have "\<exists>attempts. lazyWithRetry failing_env (Some 2) (Some 1000) 5 =
      Some (Rejected 2, attempts) \<and> length attempts = 2 + 1"
    by simp
  moreover
  from lazyWithRetry_outcomes [of 1 failing_env "\<lambda>k. k" 2 _ 1000 5 1] fails [of 1] one
  have "\<exists>attempts clock. lazyWithRetry failing_env (Some 2) (Some 1000) 5 =
      attemptImport failing_env 1000 Timer (2 - int 1 - 1) (1 + 1) clock attempts \<and>
      length attempts = 1 + 1 \<and> last attempts + 1000 \<le> clock"
    by simp
  moreover
  from lazyWithRetry_outcomes [of 0 throwing_env "\<lambda>k. k" 3 _ 1000 7 0] throws
  have "lazyWithRetry throwing_env (Some 3) (Some 1000) 7 = Some (Rejected 0, [7])"
    by simp
  moreover
  from lazyWithRetry_outcomes [of 1 late_throw_env "\<lambda>k. k" 3 _ 1000 7 1] late late_throws
  have "\<exists>attempts. lazyWithRetry late_throw_env (Some 3) (Some 1000) 7 =
      Some (Pending, attempts) \<and> length attempts = 1 + 1"
    by simp
  ultimately show ?thesis
    using page two one throws late_throws run_flaky run_failing run_late by blast
qed

text \<open>
  The claim as first stated fails when \<open>importFunc\<close> throws: with 2 retries left and the
  first call throwing, the promise is rejected at once; with the first promise rejected and
  the second call throwing, 1 retry is left, no third attempt is made, and the promise is
  neither rejected nor resolved.
\<close>

theorem lazyWithRetry_outcomes_counterexample:
  "importFunc throwing_env 0 = Thrown 0 \<and>
   lazyWithRetry throwing_env (Some 2) (Some 1000) 0 = Some (Rejected 0, [0]) \<and>
   importFunc late_throw_env 1 = Thrown 1 \<and>
   lazyWithRetry late_throw_env (Some 2) (Some 1000) 0 = Some (Pending, [0, 1040])"
  by (simp add: lazyWithRetry_def attemptImport.simps throwing_env_def late_throw_env_def)

section \<open>Properties of \<open>debounce\<close> and \<open>throttle\<close>\<close>

lemma run_snoc_induct:
  assumes "run on_call on_timer es s = Some s'"
    and "P s"
    and "\<And>e s1 s2. P s1 \<Longrightarrow> step on_call on_timer e s1 = Some s2 \<Longrightarrow> P s2"
  shows "P s'"
  using assms(1,2)
proof (induction es arbitrary: s)
  case Nil
  then show ?case by simp
next
  case (Cons e es)
  from Cons.prems(1) obtain s1 where
    first: "step on_call on_timer e s = Some s1" and rest: "run on_call on_timer es s1 = Some s'"
    by (auto split: option.splits)
  from assms(3) [OF Cons.prems(2) first] have "P s1" .
  with rest show ?case by (rule Cons.IH)
qed

subsection \<open>debounce\<close>

lemma debounce_call:
  assumes "debounce_slot s"
  shows "timers (debounce wait args s) = [(next_id s, now s + wait, args)]"
    and "timeout (debounce wait args s) = Some (next_id s)"
    and "invoked (debounce wait args s) = invoked s"
    and "now (debounce wait args s) = now s"
    and "next_id (debounce wait args s) = Suc (next_id s)"
  using assms
  by (auto simp: debounce_slot_def debounce_def setTimeout_def clearTimeout_def)

lemma debounce_fire:
  assumes "fire h s = Some (args, s')" and "timers s = [(h', due, args')]"
  shows "h = h' \<and> args = args' \<and> due \<le> now s \<and> s' = s\<lparr>timers := []\<rparr>"
  using assms
  by (auto simp: fire_def clearTimeout_def split: if_splits)

lemma fire_empty: "timers s = [] \<Longrightarrow> fire h s = None"
  by (simp add: fire_def)

lemma debounce_step_slot:
  assumes "debounce_slot s" and "step (debounce wait) debounce_later e s = Some s'"
  shows "debounce_slot s'"
proof (cases e)
  case (Call t args)
  with assms(2) have s': "s' = debounce wait args (s\<lparr>now := t\<rparr>)"
    by (simp split: if_splits)
  have "debounce_slot (s\<lparr>now := t\<rparr>)"
    using assms(1) by (simp add: debounce_slot_def)
  from debounce_call(1,2,5) [OF this, of wait args] show ?thesis
    unfolding s' debounce_slot_def by simp
next
  case (Fire t h)
  with assms(2) obtain args s1 where
    fired: "fire h (s\<lparr>now := t\<rparr>) = Some (args, s1)" and s': "s' = debounce_later args s1"
    by (auto split: if_splits option.splits)
  from fired have "timers s \<noteq> []"
    using fire_empty [of "s\<lparr>now := t\<rparr>" h] by auto
  with assms(1) obtain h' due args' where "timers (s\<lparr>now := t\<rparr>) = [(h', due, args')]"
    by (auto simp: debounce_slot_def)
  from debounce_fire [OF fired this] have "timers s1 = []"
    by simp
  then show ?thesis
    unfolding s' by (simp add: debounce_slot_def debounce_later_def)
qed

lemma debounce_init_slot: "debounce_slot debounce_init"
  by (simp add: debounce_slot_def debounce_init_def)

lemma debounce_run_slot: "debounce_run wait es = Some s \<Longrightarrow> debounce_slot s"
  unfolding debounce_run_def
  by (erule run_snoc_induct [where P = debounce_slot])
    (auto intro: debounce_init_slot debounce_step_slot)

lemma debounce_quiet_slot: "debounce_quiet w prev s \<Longrightarrow> debounce_slot s"
  by (auto simp: debounce_quiet_def debounce_slot_def split: option.splits)

lemma debounce_step_quiet:
  assumes inv: "debounce_quiet w prev s"
    and st: "step (debounce w) debounce_later e s = Some s'"
    and rap: "rapid w (map_option fst prev) [e]"
  shows "debounce_quiet w (last_call prev [e]) s'"
proof (cases e)
  case (Call t args)
  with st have s': "s' = debounce w args (s\<lparr>now := t\<rparr>)" and mono: "now s \<le> t"
    by (simp_all split: if_splits)
  have "debounce_slot (s\<lparr>now := t\<rparr>)"
    using debounce_quiet_slot [OF inv] by (simp add: debounce_slot_def)
  note call = debounce_call [OF this, of w args]
  have pending: "invoked s = []"
  proof (cases prev)
    case None
    with inv show ?thesis by (simp add: debounce_quiet_def)
  next
    case (Some p)
    obtain t0 a0 where p: "p = (t0, a0)" by (cases p)
    from rap Some p Call have "t < t0 + w" by simp
    with inv Some p mono show ?thesis
      by (auto simp: debounce_quiet_def)
  qed
  show ?thesis
    using call pending unfolding s' Call
    by (simp add: debounce_quiet_def)
next
  case (Fire t h)
  with st obtain args s1 where mono: "now s \<le> t"
    and fired: "fire h (s\<lparr>now := t\<rparr>) = Some (args, s1)" and s': "s' = debounce_later args s1"
    by (auto split: if_splits option.splits)
  from fired have nonempty: "timers s \<noteq> []"
    using fire_empty [of "s\<lparr>now := t\<rparr>" h] by auto
  with inv obtain t0 a0 h' where prev: "prev = Some (t0, a0)"
    and tm: "timers s = [(h', t0 + w, a0)]" and inv0: "invoked s = []"
    by (auto simp: debounce_quiet_def split: option.splits)
  from inv prev have t0: "t0 \<le> now s"
    by (simp add: debounce_quiet_def)
  from tm have "timers (s\<lparr>now := t\<rparr>) = [(h', t0 + w, a0)]" by simp
  from debounce_fire [OF fired this]
  have "args = a0" and due: "t0 + w \<le> t" and s1: "s1 = s\<lparr>now := t, timers := []\<rparr>"
    by simp_all
  show ?thesis
    using t0 mono due inv0 unfolding s' s1 Fire prev \<open>args = a0\<close>
    by (simp add: debounce_quiet_def debounce_later_def)
qed

lemma debounce_run_quiet:
  assumes "run (debounce w) debounce_later es s = Some s'"
    and "debounce_quiet w prev s"
    and "rapid w (map_option fst prev) es"
  shows "debounce_quiet w (last_call prev es) s'"
  using assms
proof (induction es arbitrary: s prev)
  case Nil
  then show ?case by simp
next
  case (Cons e es)
  from Cons.prems(1) obtain s1 where
    first: "step (debounce w) debounce_later e s = Some s1"
    and rest: "run (debounce w) debounce_later es s1 = Some s'"
    by (auto split: option.splits)
  have rap1: "rapid w (map_option fst prev) [e]"
    and rap2: "rapid w (map_option fst (last_call prev [e])) es"
    using Cons.prems(3) by (cases e; simp)+
  from debounce_step_quiet [OF Cons.prems(2) first rap1]
  have "debounce_quiet w (last_call prev [e]) s1" .
  from Cons.IH [OF rest this rap2] show ?case
    by (cases e) simp_all
qed

lemma debounce_init_quiet: "debounce_quiet w None debounce_init"
  by (simp add: debounce_quiet_def debounce_init_def)

text \<open>
  C4. Take a history of a debounced function in which every call comes less than \<open>wait\<close>
  after the call before it, and let its last call be at time \<open>t\<close> with \<open>args\<close>. Once no
  timer is pending, \<open>func\<close> has been called exactly once, with \<open>args\<close>, at a time no earlier
  than \<open>t + wait\<close>. Until then \<open>func\<close> has not been called and the one pending timer is the
  one for \<open>t + wait\<close> that holds \<open>args\<close>.
\<close>

theorem debounce_last_call_wins:
  assumes "debounce_run wait es = Some s"
    and "rapid wait None es"
    and "last_call None es = Some (t, args)"
  shows "(timers s = [] \<longrightarrow> (\<exists>u. invoked s = [(u, args)] \<and> t + wait \<le> u)) \<and>
    (timers s \<noteq> [] \<longrightarrow> invoked s = [] \<and> (\<exists>h. timers s = [(h, t + wait, args)]))"
proof -
  have "rapid wait (map_option fst None) es"
    using assms(2) by simp
  with assms(1) have "debounce_quiet wait (last_call None es) s"
    unfolding debounce_run_def
    by (rule debounce_run_quiet [OF _ debounce_init_quiet])
  then show ?thesis
    unfolding assms(3) by (auto simp: debounce_quiet_def)
qed

theorem debounce_last_call_wins_witness:
  "debounce_run 10 [Call 0 ''a'', Call 5 ''b'', Call 12 ''c'', Fire 30 3] =
     Some \<lparr>now = 30, next_id = 4, timers = [], invoked = [(30, ''c'')], timeout = None\<rparr> \<and>
   rapid 10 None [Call 0 ''a'', Call 5 ''b'', Call 12 ''c'', Fire 30 3] \<and>
   last_call None [Call 0 ''a'', Call 5 ''b'', Call 12 ''c'', Fire 30 3] = Some (12, ''c'') \<and>
   debounce_run 10 [Call 0 ''a'', Call 5 ''b'', Call 12 ''c''] =
     Some \<lparr>now = 12, next_id = 4, timers = [(3, 22, ''c'')], invoked = [], timeout = Some 3\<rparr> \<and>
   (\<exists>u::nat. [(30, ''c'')] = [(u, ''c'')] \<and> 12 + 10 \<le> u)"
proof -
  let ?es = "[Call 0 ''a'', Call 5 ''b'', Call 12 ''c'', Fire 30 3]"
  let ?s = "\<lparr>now = 30, next_id = 4, timers = [], invoked = [(30, ''c'')], timeout = None\<rparr>"
  have fired: "debounce_run 10 ?es = Some ?s"
    by (simp add: debounce_run_def debounce_init_def debounce_def debounce_later_def
        setTimeout_def clearTimeout_def fire_def)
  have pending: "debounce_run 10 [Call 0 ''a'', Call 5 ''b'', Call 12 ''c''] =
      Some \<lparr>now = 12, next_id = 4, timers = [(3, 22, ''c'')], invoked = [], timeout = Some 3\<rparr>"
    by (simp add: debounce_run_def debounce_init_def debounce_def debounce_later_def
        setTimeout_def clearTimeout_def fire_def)
  have rap: "rapid 10 None ?es" by simp
  have lst: "last_call None ?es = Some (12, ''c'')" by simp
  from debounce_last_call_wins [OF fired rap lst]
  have "\<exists>u::nat. [(30, ''c'')] = [(u, ''c'')] \<and> 12 + 10 \<le> u"
    by simp
  with fired pending rap lst show ?thesis by blast
qed

subsection \<open>throttle\<close>

lemma throttle_steps_induct:
  assumes "throttle_steps depth func limit es s = Some s'"
    and "P s"
    and "\<And>e s1 s2. P s1 \<Longrightarrow> throttle_step depth func limit e s1 = Some s2 \<Longrightarrow> P s2"
  shows "P s'"
  using assms(1,2)
proof (induction es arbitrary: s)
  case Nil
  then show ?case by simp
next
  case (Cons e es)
  from Cons.prems(1) obtain s1 where
    first: "throttle_step depth func limit e s = Some s1"
    and rest: "throttle_steps depth func limit es s1 = Some s'"
    by (auto split: option.splits)
  from assms(3) [OF Cons.prems(2) first] have "P s1" .
  with rest show ?case by (rule Cons.IH)
qed

lemma throttle_finishes:
  assumes "inThrottle s \<noteq> Some True" and "func (length (invoked s)) args = Finishes"
  shows "\<exists>s'. throttle (Suc depth) func limit args s = Some (False, s') \<and>
    timers s' = timers s @ [(next_id s, now s + limit, ())] \<and>
    inThrottle s' = Some True \<and> invoked s' = invoked s @ [(now s, args)] \<and> now s' = now s"
  using assms by (simp add: setTimeout_def)

lemma throttle_raises:
  assumes "inThrottle s \<noteq> Some True" and "func (length (invoked s)) args = Raises"
  shows "throttle (Suc depth) func limit args s =
    Some (True, s\<lparr>invoked := invoked s @ [(now s, args)]\<rparr>)"
  using assms by simp

lemma throttle_open:
  "inThrottle s = Some True \<Longrightarrow> throttle (Suc depth) func limit args s = Some (False, s)"
  by simp

lemma throttle_step_dropped:
  assumes "inThrottle s = Some True" and "now s \<le> t"
  shows "throttle_step (Suc depth) func limit (Call t args) s = Some (s\<lparr>now := t\<rparr>)"
  using assms by simp

lemma throttle_step_window:
  assumes inv: "throttle_window limit s"
    and plain: "\<forall>i a. func i a = Finishes"
    and st: "throttle_step (Suc depth) func limit e s = Some s'"
  shows "throttle_window limit s'"
proof (cases e)
  case (Call t args)
  with st have mono: "now s \<le> t"
    by (simp split: if_splits)
  show ?thesis
  proof (cases "inThrottle s = Some True")
    case True
    with st Call mono have "s' = s\<lparr>now := t\<rparr>"
      by simp
    with inv True mono show ?thesis
      by (auto simp: throttle_window_def)
  next
    case False
    then have closed: "inThrottle (s\<lparr>now := t\<rparr>) \<noteq> Some True" by simp
    from plain have "func (length (invoked (s\<lparr>now := t\<rparr>))) args = Finishes" by simp
    from throttle_finishes [where func = func and args = args and depth = depth and limit = limit, OF closed this] obtain s1 where
      call: "throttle (Suc depth) func limit args (s\<lparr>now := t\<rparr>) = Some (False, s1)"
      and tm: "timers s1 = timers s @ [(next_id s, t + limit, ())]"
      and open': "inThrottle s1 = Some True"
      and inv1: "invoked s1 = invoked s @ [(t, args)]" and now1: "now s1 = t"
      by auto
    from st Call mono call have s': "s' = s1" by simp
    from inv False have none: "timers s = []"
      and ago: "invoked s \<noteq> [] \<longrightarrow> fst (last (invoked s)) + limit \<le> now s"
      and sp: "spaced limit (map fst (invoked s))"
      by (simp_all add: throttle_window_def)
    have "spaced limit (map fst (invoked s) @ [t])"
      using sp ago mono by (subst spaced_snoc) (auto simp: last_map)
    then show ?thesis
      using tm open' inv1 now1 none unfolding s' by (simp add: throttle_window_def)
  qed
next
  case (Fire t h)
  with st obtain u s1 where mono: "now s \<le> t"
    and fired: "fire h (s\<lparr>now := t\<rparr>) = Some (u, s1)" and s': "s' = throttle_reset u s1"
    by (auto split: if_splits option.splits)
  from fired have nonempty: "timers s \<noteq> []"
    using fire_empty [of "s\<lparr>now := t\<rparr>" h] by auto
  with inv have open': "inThrottle s = Some True"
    by (auto simp: throttle_window_def split: if_splits)
  with inv obtain h' where tm: "timers s = [(h', fst (last (invoked s)) + limit, ())]"
    and sp: "spaced limit (map fst (invoked s))"
    by (auto simp: throttle_window_def)
  from tm have "timers (s\<lparr>now := t\<rparr>) = [(h', fst (last (invoked s)) + limit, ())]"
    by simp
  from debounce_fire [OF fired this]
  have due: "fst (last (invoked s)) + limit \<le> t" and s1: "s1 = s\<lparr>now := t, timers := []\<rparr>"
    by simp_all
  show ?thesis
    using sp due unfolding s' s1 by (simp add: throttle_window_def throttle_reset_def)
qed

lemma throttle_init_window: "throttle_window limit throttle_init"
  by (simp add: throttle_window_def throttle_init_def)

lemma throttle_run_window:
  assumes "\<forall>i a. func i a = Finishes"
    and "throttle_run (Suc depth) func limit es = Some s"
  shows "throttle_window limit s"
  using assms(2) unfolding throttle_run_def
  by (rule throttle_steps_induct [where P = "throttle_window limit"])
    (auto intro: throttle_init_window throttle_step_window [OF _ assms(1)])

lemma throttle_fire_closes:
  assumes "timers s = [(h, due, ())]" and "now s \<le> u" and "due \<le> u"
  shows "throttle_step depth func limit (Fire u h) s =
    Some (s\<lparr>now := u, timers := [], inThrottle := Some False\<rparr>)"
  using assms by (simp add: fire_def clearTimeout_def throttle_reset_def)

text \<open>
  C5, as amended. Let \<open>func\<close> finish whenever it is invoked, without throwing and without
  calling the wrapper. Then in every history of the throttled function the calls of \<open>func\<close>
  lie at least \<open>limit\<close> apart. A call that arrives while no window is open calls \<open>func\<close>, at
  that time and with its arguments, and opens a window. A call that arrives while a window
  is open is dropped: it changes nothing but the clock. A window stays open for at least
  \<open>limit\<close> after the call of \<open>func\<close> that opened it, and it is closed by its timer, which
  can run at any time from then on.
\<close>

theorem throttle_leading_calls:
  assumes "\<forall>i a. func i a = Finishes"
    and "throttle_run (Suc depth) func limit es = Some s"
  shows "spaced limit (map fst (invoked s)) \<and>
    (inThrottle s \<noteq> Some True \<and> now s \<le> t \<longrightarrow>
       (\<exists>s'. throttle_step (Suc depth) func limit (Call t args) s = Some s' \<and>
          invoked s' = invoked s @ [(t, args)] \<and> inThrottle s' = Some True)) \<and>
    (inThrottle s = Some True \<and> now s \<le> t \<longrightarrow>
       throttle_step (Suc depth) func limit (Call t args) s = Some (s\<lparr>now := t\<rparr>)) \<and>
    (invoked s \<noteq> [] \<and> now s < fst (last (invoked s)) + limit \<longrightarrow> inThrottle s = Some True) \<and>
    (inThrottle s = Some True \<longrightarrow>
       (\<exists>h. timers s = [(h, fst (last (invoked s)) + limit, ())] \<and>
          (now s \<le> u \<and> fst (last (invoked s)) + limit \<le> u \<longrightarrow>
             (\<exists>s'. throttle_step (Suc depth) func limit (Fire u h) s = Some s' \<and>
                inThrottle s' = Some False \<and> timers s' = [] \<and> invoked s' = invoked s))))"
proof -
  from assms have inv: "throttle_window limit s"
    by (rule throttle_run_window)
  then have "spaced limit (map fst (invoked s))"
    by (simp add: throttle_window_def)
  moreover have "\<exists>s'. throttle_step (Suc depth) func limit (Call t args) s = Some s' \<and>
      invoked s' = invoked s @ [(t, args)] \<and> inThrottle s' = Some True"
    if "inThrottle s \<noteq> Some True" and "now s \<le> t"
  proof -
    from that(1) have closed: "inThrottle (s\<lparr>now := t\<rparr>) \<noteq> Some True" by simp
    from assms(1) have "func (length (invoked (s\<lparr>now := t\<rparr>))) args = Finishes" by simp
    from throttle_finishes [where func = func and args = args and depth = depth
        and limit = limit, OF closed this]
    obtain s1 where
      call: "throttle (Suc depth) func limit args (s\<lparr>now := t\<rparr>) = Some (False, s1)"
      and inv1: "invoked s1 = invoked s @ [(t, args)]" and open1: "inThrottle s1 = Some True"
      by auto
    from call that(2) have "throttle_step (Suc depth) func limit (Call t args) s = Some s1"
      by simp
    with inv1 open1 show ?thesis by blast
  qed
  moreover have "throttle_step (Suc depth) func limit (Call t args) s = Some (s\<lparr>now := t\<rparr>)"
    if "inThrottle s = Some True" and "now s \<le> t"
    using that by (rule throttle_step_dropped)
  moreover have "inThrottle s = Some True"
    if "invoked s \<noteq> []" and "now s < fst (last (invoked s)) + limit"
    using inv that by (auto simp: throttle_window_def split: if_splits)
  moreover have "\<exists>h. timers s = [(h, fst (last (invoked s)) + limit, ())] \<and>
      (now s \<le> u \<and> fst (last (invoked s)) + limit \<le> u \<longrightarrow>
         (\<exists>s'. throttle_step (Suc depth) func limit (Fire u h) s = Some s' \<and>
            inThrottle s' = Some False \<and> timers s' = [] \<and> invoked s' = invoked s))"
    if "inThrottle s = Some True"
  proof -
    from inv that obtain h where tm: "timers s = [(h, fst (last (invoked s)) + limit, ())]"
      by (auto simp: throttle_window_def)
    have "\<exists>s'. throttle_step (Suc depth) func limit (Fire u h) s = Some s' \<and>
        inThrottle s' = Some False \<and> timers s' = [] \<and> invoked s' = invoked s"
      if "now s \<le> u" and "fst (last (invoked s)) + limit \<le> u"
      using throttle_fire_closes [OF tm that, of "Suc depth" func limit] by simp
    with tm show ?thesis by blast
  qed
  ultimately show ?thesis by blast
qed

theorem throttle_leading_calls_witness:
  "throttle_run 1 plain_func 100 [Call 0 ''a'', Call 40 ''b'', Call 90 ''c'', Fire 105 1] =
     Some \<lparr>now = 105, next_id = 2, timers = [], invoked = [(0, ''a'')],
       inThrottle = Some False\<rparr> \<and>
   throttle_step 1 plain_func 100 (Call 130 ''d'')
     \<lparr>now = 105, next_id = 2, timers = [], invoked = [(0, ''a'')], inThrottle = Some False\<rparr> =
     Some \<lparr>now = 130, next_id = 3, timers = [(2, 230, ())],
       invoked = [(0, ''a''), (130, ''d'')], inThrottle = Some True\<rparr> \<and>
   throttle_run 1 plain_func 100
       [Call 0 ''a'', Call 40 ''b'', Call 90 ''c'', Fire 105 1, Call 130 ''d''] =
     Some \<lparr>now = 130, next_id = 3, timers = [(2, 230, ())],
       invoked = [(0, ''a''), (130, ''d'')], inThrottle = Some True\<rparr> \<and>
   throttle_step 1 plain_func 100 (Call 150 ''e'')
     \<lparr>now = 130, next_id = 3, timers = [(2, 230, ())],
       invoked = [(0, ''a''), (130, ''d'')], inThrottle = Some True\<rparr> =
     Some \<lparr>now = 150, next_id = 3, timers = [(2, 230, ())],
       invoked = [(0, ''a''), (130, ''d'')], inThrottle = Some True\<rparr> \<and>
   (\<exists>s'. throttle_step 1 plain_func 100 (Fire 240 2)
       \<lparr>now = 130, next_id = 3, timers = [(2, 230, ())],
         invoked = [(0, ''a''), (130, ''d'')], inThrottle = Some True\<rparr> = Some s' \<and>
      inThrottle s' = Some False \<and> timers s' = []) \<and>
   spaced 100 [0, 130]"
proof -
  let ?closed = "\<lparr>now = 105, next_id = 2, timers = [], invoked = [(0, ''a'')],
    inThrottle = Some False\<rparr> :: string throttle_state"
  let ?opened = "\<lparr>now = 130, next_id = 3, timers = [(2, 230, ())],
    invoked = [(0, ''a''), (130, ''d'')], inThrottle = Some True\<rparr> :: string throttle_state"
  have plain: "\<forall>i a. plain_func i a = Finishes"
    by (simp add: plain_func_def)
  have run4: "throttle_run (Suc 0) plain_func 100
      [Call 0 ''a'', Call 40 ''b'', Call 90 ''c'', Fire 105 1] = Some ?closed"
    by (simp add: throttle_run_def throttle_init_def plain_func_def throttle_reset_def
        setTimeout_def clearTimeout_def fire_def)
  have run5: "throttle_run (Suc 0) plain_func 100
      [Call 0 ''a'', Call 40 ''b'', Call 90 ''c'', Fire 105 1, Call 130 ''d''] = Some ?opened"
    by (simp add: throttle_run_def throttle_init_def plain_func_def throttle_reset_def
        setTimeout_def clearTimeout_def fire_def)
  from throttle_leading_calls [OF plain run4, of 130 "''d''"]
  have "\<exists>s'. throttle_step (Suc 0) plain_func 100 (Call 130 ''d'') ?closed = Some s' \<and>
      invoked s' = [(0, ''a'')] @ [(130, ''d'')] \<and> inThrottle s' = Some True"
    by simp
  then have lead: "throttle_step (Suc 0) plain_func 100 (Call 130 ''d'') ?closed = Some ?opened"
    by (simp add: plain_func_def setTimeout_def)
  from throttle_leading_calls [OF plain run5, of 150 "''e''" 240]
  have drop: "throttle_step (Suc 0) plain_func 100 (Call 150 ''e'') ?opened =
      Some (?opened\<lparr>now := 150\<rparr>)"
    and sp: "spaced 100 (map fst (invoked ?opened))"
    and close: "\<exists>s'. throttle_step (Suc 0) plain_func 100 (Fire 240 2) ?opened = Some s' \<and>
      inThrottle s' = Some False \<and> timers s' = []"
    by auto
  from run4 lead run5 drop sp close show ?thesis
    by (simp only: One_nat_def) simp
qed

text \<open>
  The claim as first stated fails for a \<open>func\<close> that throws and for one that calls the
  wrapper. When \<open>func\<close> throws, no window is opened: with the limit 100, calls at 0 and at
  40 both call \<open>func\<close>. When \<open>func\<close>, called on \<open>outer\<close>, calls the wrapper on \<open>inner\<close>,
  no window is open yet and \<open>func\<close> is called a second time at once.
\<close>

theorem throttle_leading_calls_counterexample:
  "throttle_run 1 raising_func 100 [Call 0 ''a'', Call 40 ''b''] =
     Some \<lparr>now = 40, next_id = 1, timers = [], invoked = [(0, ''a''), (40, ''b'')],
       inThrottle = None\<rparr> \<and>
   \<not> spaced 100 [0, 40] \<and>
   throttle_run 3 reentrant_func 100 [Call 0 ''outer''] =
     Some \<lparr>now = 0, next_id = 3, timers = [(1, 100, ()), (2, 100, ())],
       invoked = [(0, ''outer''), (0, ''inner'')], inThrottle = Some True\<rparr> \<and>
   \<not> spaced 100 [0, 0]"
  by (simp add: throttle_run_def throttle_init_def raising_func_def reentrant_func_def
      setTimeout_def numeral_3_eq_3)

subsection \<open>The timer slot\<close>

lemma throttle_step_slot:
  assumes inv: "throttle_slot s"
    and tame: "\<forall>i a. func i a = Finishes \<or> func i a = Raises"
    and st: "throttle_step (Suc depth) func limit e s = Some s'"
  shows "throttle_slot s'"
proof (cases e)
  case (Call t args)
  with st have mono: "now s \<le> t"
    by (simp split: if_splits)
  show ?thesis
  proof (cases "inThrottle s = Some True")
    case True
    with st Call mono have "s' = s\<lparr>now := t\<rparr>"
      by simp
    with inv show ?thesis
      by (auto simp: throttle_slot_def)
  next
    case False
    then have closed: "inThrottle (s\<lparr>now := t\<rparr>) \<noteq> Some True" by simp
    from inv False have none: "timers s = []"
      by (auto simp: throttle_slot_def)
    from tame consider "func (length (invoked (s\<lparr>now := t\<rparr>))) args = Finishes"
      | "func (length (invoked (s\<lparr>now := t\<rparr>))) args = Raises"
      by blast
    then show ?thesis
    proof cases
      case 1
      from throttle_finishes [where func = func and args = args and depth = depth and limit = limit, OF closed 1] obtain s1 where
        "throttle (Suc depth) func limit args (s\<lparr>now := t\<rparr>) = Some (False, s1)"
        and "timers s1 = timers s @ [(next_id s, t + limit, ())]"
        and "inThrottle s1 = Some True"
        by auto
      with st Call mono none show ?thesis
        by (auto simp: throttle_slot_def)
    next
      case 2
      from throttle_raises [where func = func and args = args and depth = depth and limit = limit, OF closed 2] st Call mono
      have "s' = s\<lparr>now := t, invoked := invoked s @ [(t, args)]\<rparr>"
        by simp
      with False none show ?thesis
        by (simp add: throttle_slot_def)
    qed
  qed
next
  case (Fire t h)
  with st obtain u s1 where
    fired: "fire h (s\<lparr>now := t\<rparr>) = Some (u, s1)" and s': "s' = throttle_reset u s1"
    by (auto split: if_splits option.splits)
  from fired have "timers s \<noteq> []"
    using fire_empty [of "s\<lparr>now := t\<rparr>" h] by auto
  with inv obtain h' due where "timers (s\<lparr>now := t\<rparr>) = [(h', due, ())]"
    by (auto simp: throttle_slot_def)
  from debounce_fire [OF fired this] have "timers s1 = []"
    by simp
  then show ?thesis
    unfolding s' by (simp add: throttle_slot_def throttle_reset_def)
qed

lemma throttle_init_slot: "throttle_slot throttle_init"
  by (simp add: throttle_slot_def throttle_init_def)

lemma throttle_run_slot:
  assumes "\<forall>i a. func i a = Finishes \<or> func i a = Raises"
    and "throttle_run (Suc depth) func limit es = Some s"
  shows "throttle_slot s"
  using assms(2) unfolding throttle_run_def
  by (rule throttle_steps_induct [where P = throttle_slot])
    (auto intro: throttle_init_slot throttle_step_slot [OF _ assms(1)])

text \<open>
  C7, as amended. A debounced function has at most one timer pending, at any point of any
  history, and so has a throttled function whose \<open>func\<close> does not call the wrapper while it
  runs (it may throw). A call of the debounced function leaves exactly one timer pending,
  the new one for its own arguments, under a handle other than the one held before: the
  old timer is cancelled and replaced. A call of such a throttled function that arrives
  while its timer is pending is dropped: it changes nothing but the clock, so no second
  timer is set.
\<close>

theorem single_timer_slot:
  assumes "debounce_run wait es = Some s"
    and "\<forall>i a. func i a = Finishes \<or> func i a = Raises"
    and "throttle_run (Suc depth) func limit es' = Some s'"
  shows "length (timers s) \<le> 1 \<and> length (timers s') \<le> 1 \<and>
    (now s \<le> t \<longrightarrow>
       (\<exists>s2. step (debounce wait) debounce_later (Call t args) s = Some s2 \<and>
          timers s2 = [(next_id s, t + wait, args)] \<and> timeout s2 = Some (next_id s) \<and>
          timeout s \<noteq> Some (next_id s))) \<and>
    (timers s' \<noteq> [] \<and> now s' \<le> t' \<longrightarrow>
       throttle_step (Suc depth) func limit (Call t' args') s' = Some (s'\<lparr>now := t'\<rparr>))"
proof -
  from assms(1) have slot: "debounce_slot s"
    by (rule debounce_run_slot)
  from assms(2,3) have slot': "throttle_slot s'"
    by (rule throttle_run_slot)
  have "length (timers s) \<le> 1"
    using slot by (auto simp: debounce_slot_def)
  moreover have "length (timers s') \<le> 1"
    using slot' by (auto simp: throttle_slot_def)
  moreover have "\<exists>s2. step (debounce wait) debounce_later (Call t args) s = Some s2 \<and>
      timers s2 = [(next_id s, t + wait, args)] \<and> timeout s2 = Some (next_id s) \<and>
      timeout s \<noteq> Some (next_id s)"
    if "now s \<le> t"
  proof -
    have "debounce_slot (s\<lparr>now := t\<rparr>)"
      using slot by (simp add: debounce_slot_def)
    from debounce_call(1,2) [OF this, of wait args] that
    have "step (debounce wait) debounce_later (Call t args) s =
        Some (debounce wait args (s\<lparr>now := t\<rparr>))"
      and "timers (debounce wait args (s\<lparr>now := t\<rparr>)) = [(next_id s, t + wait, args)]"
      and "timeout (debounce wait args (s\<lparr>now := t\<rparr>)) = Some (next_id s)"
      by simp_all
    moreover have "timeout s \<noteq> Some (next_id s)"
      using slot by (auto simp: debounce_slot_def)
    ultimately show ?thesis by blast
  qed
  moreover have "throttle_step (Suc depth) func limit (Call t' args') s' = Some (s'\<lparr>now := t'\<rparr>)"
    if "timers s' \<noteq> []" and "now s' \<le> t'"
  proof -
    from slot' that(1) have "inThrottle s' = Some True"
      by (auto simp: throttle_slot_def)
    then show ?thesis using that(2) by (rule throttle_step_dropped)
  qed
  ultimately show ?thesis by blast
qed

theorem single_timer_slot_witness:
  "debounce_run 10 [Call 0 ''a'', Call 5 ''b''] =
     Some \<lparr>now = 5, next_id = 3, timers = [(2, 15, ''b'')], invoked = [], timeout = Some 2\<rparr> \<and>
   throttle_run 1 plain_func 100 [Call 0 ''a'', Call 40 ''b''] =
     Some \<lparr>now = 40, next_id = 2, timers = [(1, 100, ())], invoked = [(0, ''a'')],
       inThrottle = Some True\<rparr> \<and>
   (\<exists>s2. step (debounce 10) debounce_later (Call 12 ''c'')
       \<lparr>now = 5, next_id = 3, timers = [(2, 15, ''b'')], invoked = [], timeout = Some 2\<rparr> =
       Some s2 \<and> timers s2 = [(3, 22, ''c'')] \<and> timeout s2 = Some 3) \<and>
   throttle_step 1 plain_func 100 (Call 90 ''c'')
     \<lparr>now = 40, next_id = 2, timers = [(1, 100, ())], invoked = [(0, ''a'')],
       inThrottle = Some True\<rparr> =
     Some \<lparr>now = 90, next_id = 2, timers = [(1, 100, ())], invoked = [(0, ''a'')],
       inThrottle = Some True\<rparr> \<and>
   throttle_run 1 raising_func 100 [Call 0 ''a'', Call 40 ''b''] =
     Some \<lparr>now = 40, next_id = 1, timers = [], invoked = [(0, ''a''), (40, ''b'')],
       inThrottle = None\<rparr>"
proof -
  let ?d = "\<lparr>now = 5, next_id = 3, timers = [(2, 15, ''b'')], invoked = [],
    timeout = Some 2\<rparr> :: string debounce_state"
  let ?t = "\<lparr>now = 40, next_id = 2, timers = [(1, 100, ())], invoked = [(0, ''a'')],
    inThrottle = Some True\<rparr> :: string throttle_state"
  let ?r = "\<lparr>now = 40, next_id = 1, timers = [], invoked = [(0, ''a''), (40, ''b'')],
    inThrottle = None\<rparr> :: string throttle_state"
  have tame: "\<forall>i a. plain_func i a = Finishes \<or> plain_func i a = Raises"
    by (simp add: plain_func_def)
  have tame': "\<forall>i a. raising_func i a = Finishes \<or> raising_func i a = Raises"
    by (simp add: raising_func_def)
  have d: "debounce_run 10 [Call 0 ''a'', Call 5 ''b''] = Some ?d"
    by (simp add: debounce_run_def debounce_init_def debounce_def debounce_later_def
        setTimeout_def clearTimeout_def fire_def)
  have t: "throttle_run (Suc 0) plain_func 100 [Call 0 ''a'', Call 40 ''b''] = Some ?t"
    by (simp add: throttle_run_def throttle_init_def plain_func_def setTimeout_def)
  have r: "throttle_run (Suc 0) raising_func 100 [Call 0 ''a'', Call 40 ''b''] = Some ?r"
    by (simp add: throttle_run_def throttle_init_def raising_func_def)
  from single_timer_slot [OF d tame t, of 12 "''c''" 90 "''c''"]
  have "\<exists>s2. step (debounce 10) debounce_later (Call 12 ''c'') ?d = Some s2 \<and>
      timers s2 = [(3, 22, ''c'')] \<and> timeout s2 = Some 3"
    and "throttle_step (Suc 0) plain_func 100 (Call 90 ''c'') ?t = Some (?t\<lparr>now := 90\<rparr>)"
    by simp_all
  moreover from single_timer_slot [OF d tame' r, of 12 "''c''" 90 "''c''"]
  have "length (timers ?r) \<le> 1"
    by simp
  ultimately show ?thesis
    using d t r by (simp only: One_nat_def) simp
qed

text \<open>
  The claim as first stated fails for a throttled function whose \<open>func\<close> calls the wrapper:
  \<open>func\<close> runs before \<open>inThrottle = true\<close>, so the call made from inside \<open>func\<close> sets a
  timer, and the call that \<open>func\<close> was run by sets a second one.
\<close>

theorem single_timer_slot_counterexample:
  "throttle_run 3 reentrant_func 100 [Call 0 ''outer''] =
     Some \<lparr>now = 0, next_id = 3, timers = [(1, 100, ()), (2, 100, ())],
       invoked = [(0, ''outer''), (0, ''inner'')], inThrottle = Some True\<rparr> \<and>
   \<not> length [(1, 100, ()), (2::nat, 100::nat, ())] \<le> 1"
  by (simp add: throttle_run_def throttle_init_def reentrant_func_def setTimeout_def
      numeral_3_eq_3)

end
